theory Spec2Isabelle
  imports Complex_Main
begin

section \<open>Data model\<close>

text \<open>
  The program is \<^verbatim>\<open>src/backend/main.py\<close>: a FastAPI application that drives one
  headless browser page through Playwright and streams screenshots of it over WebSockets.
  Python floats are read as real numbers (\<^typ>\<open>real\<close>), so the product
  \<^verbatim>\<open>payload.x * 1280\<close> is the exact product; rounding, infinities and NaN are outside
  the model.
\<close>

subsection \<open>Command payloads\<close>

record ClickPayload =
  x :: real
  y :: real

record KeyboardPayload =
  key :: string

record GotoPayload =
  url :: string

subsection \<open>The controlled page\<close>

text \<open>
  What the handlers' JavaScript snippets read and write: the element that has the focus
  (\<^verbatim>\<open>document.activeElement\<close>, with its \<^verbatim>\<open>tagName\<close> and
  \<^verbatim>\<open>contentEditable\<close>), the topmost element at a point
  (\<^verbatim>\<open>document.elementFromPoint\<close>) and the session history
  (\<^verbatim>\<open>window.history\<close>). The history is kept as the entries before the current
  one (nearest first), the current entry, and the entries after it (nearest first), so a
  current entry always exists.
\<close>

record element =
  tagName :: string
  contentEditable :: string
  focusable :: bool

record entry =
  entry_url :: string
  entry_state :: "string option"

datatype traversal = Back | Forward

datatype jsval = JNull | JBool bool

datatype wait_until = Load | DOMContentLoaded | NetworkIdle | Commit

datatype script =
    FocusElementAt real real
  | HasFocusedInput
  | HistoryLengthGt1
  | CanGoForward

datatype engine_call =
    MouseMove real real
  | MouseClick real real
  | Evaluate script
  | KeyboardPress string
  | PageGoto string wait_until
  | PageGoBack wait_until
  | PageGoForward wait_until

record tab =
  back_entries :: "entry list"
  current_entry :: entry
  forward_entries :: "entry list"
  queued :: "traversal list"
  activeElement :: "element option"
  hit :: "real \<Rightarrow> real \<Rightarrow> element option"
  pointer :: "real \<times> real"
  calls :: "engine_call list"
  faults :: "engine_call \<Rightarrow> string option"

text \<open>
  \<open>calls\<close> is the log of the calls the program has issued to the engine, oldest first.
  \<open>faults t c = Some msg\<close> says that the engine raises an error with message \<open>msg\<close>
  when call \<open>c\<close> is issued; a call that raises is logged and has no other effect. A
  handler issues each call at most once, so the table covers every pattern of engine
  faults a handler can meet. The document's own reaction to pointer and key events
  (event handlers, link activation) is not part of the model.
\<close>

definition viewport_width :: real where
  "viewport_width = 1280"

definition viewport_height :: real where
  "viewport_height = 800"

subsection \<open>Session state and responses\<close>

type_synonym handle = nat

type_synonym websocket = nat

record web_appState =
  playwright :: "handle option"
  browser :: "handle option"
  browser_context :: "handle option"
  page :: "tab option"
  active_connections :: "websocket set"

record JsonResponse =
  success :: bool
  focused :: "jsval option"
  error :: "string option"

datatype HTTPException = HTTPException (status_code: nat) (detail: string)

section \<open>The browser's side of the calls\<close>

subsection \<open>Session history\<close>

definition history_length :: "tab \<Rightarrow> nat" where
  "history_length t = length (back_entries t) + 1 + length (forward_entries t)"

definition history_state :: "tab \<Rightarrow> string option" where
  "history_state t = entry_state (current_entry t)"

text \<open>
  \<^verbatim>\<open>window.history.forward()\<close> is asynchronous: it queues a traversal, which the browser
  carries out after the running script has finished. A traversal with no entry to go to
  does nothing.
\<close>

definition history_forward :: "tab \<Rightarrow> tab" where
  "history_forward t = t\<lparr>queued := queued t @ [Forward]\<rparr>"

fun traverse :: "traversal \<Rightarrow> tab \<Rightarrow> tab" where
  "traverse Forward t =
     (case forward_entries t of
        [] \<Rightarrow> t
      | e # es \<Rightarrow> t\<lparr>back_entries := current_entry t # back_entries t, current_entry := e,
                     forward_entries := es, activeElement := None\<rparr>)"
| "traverse Back t =
     (case back_entries t of
        [] \<Rightarrow> t
      | e # es \<Rightarrow> t\<lparr>back_entries := es, current_entry := e,
                     forward_entries := current_entry t # forward_entries t, activeElement := None\<rparr>)"

definition settle :: "tab \<Rightarrow> tab" where
  "settle t = foldl (\<lambda>u d. traverse d u) (t\<lparr>queued := []\<rparr>) (queued t)"

text \<open>
  A navigation to the URL of the current entry replaces that entry; any other navigation
  adds an entry after the current one and drops the forward entries.
\<close>

definition navigate :: "string \<Rightarrow> tab \<Rightarrow> tab" where
  "navigate u t =
     (if u = entry_url (current_entry t)
      then t\<lparr>current_entry := \<lparr>entry_url = u, entry_state = None\<rparr>, activeElement := None\<rparr>
      else t\<lparr>back_entries := current_entry t # back_entries t,
             current_entry := \<lparr>entry_url = u, entry_state = None\<rparr>,
             forward_entries := [], activeElement := None\<rparr>)"

subsection \<open>The scripts passed to \<^verbatim>\<open>page.evaluate\<close>\<close>

text \<open>
  \<^verbatim>\<open>document.elementFromPoint\<close> answers null for a point outside the viewport;
  \<^verbatim>\<open>element.focus()\<close> moves the focus only to a focusable element.
\<close>

definition elementFromPoint :: "tab \<Rightarrow> real \<Rightarrow> real \<Rightarrow> element option" where
  "elementFromPoint t a b =
     (if 0 \<le> a \<and> a < viewport_width \<and> 0 \<le> b \<and> b < viewport_height then hit t a b
      else None)"

definition focus :: "element \<Rightarrow> tab \<Rightarrow> tab" where
  "focus e t = (if focusable e then t\<lparr>activeElement := Some e\<rparr> else t)"

text \<open>
  The test of \<^verbatim>\<open>type_keys\<close>:
  \<^verbatim>\<open>active && (active.tagName === 'INPUT' || active.tagName === 'TEXTAREA' ||
  active.contentEditable === 'true')\<close>.
\<close>

definition input_like :: "element \<Rightarrow> bool" where
  "input_like e \<longleftrightarrow>
     tagName e = ''INPUT'' \<or> tagName e = ''TEXTAREA'' \<or> contentEditable e = ''true''"

fun run_script :: "script \<Rightarrow> tab \<Rightarrow> jsval \<times> tab" where
  "run_script (FocusElementAt a b) t =
     (case elementFromPoint t a b of
        Some e \<Rightarrow> (JBool True, focus e t)
      | None \<Rightarrow> (JBool False, t))"
| "run_script HasFocusedInput t =
     (case activeElement t of
        None \<Rightarrow> (JNull, t)
      | Some active \<Rightarrow> (JBool (input_like active), t))"
| "run_script HistoryLengthGt1 t = (JBool (history_length t > 1), t)"
| "run_script CanGoForward t =
     (let current = history_state t;
          t' = history_forward t
      in (JBool (history_state t' \<noteq> current), t'))"

subsection \<open>Engine calls\<close>

fun perform :: "engine_call \<Rightarrow> tab \<Rightarrow> jsval \<times> tab" where
  "perform (MouseMove a b) t = (JNull, t\<lparr>pointer := (a, b)\<rparr>)"
| "perform (MouseClick a b) t = (JNull, t\<lparr>pointer := (a, b)\<rparr>)"
| "perform (Evaluate s) t = (let (v, t') = run_script s t in (v, settle t'))"
| "perform (KeyboardPress k) t = (JNull, t)"
| "perform (PageGoto u w) t = (JNull, navigate u t)"
| "perform (PageGoBack w) t = (JNull, traverse Back t)"
| "perform (PageGoForward w) t = (JNull, traverse Forward t)"

definition engine :: "engine_call \<Rightarrow> tab \<Rightarrow> (string + jsval) \<times> tab" where
  "engine c t =
     (let t1 = t\<lparr>calls := calls t @ [c]\<rparr>
      in case faults t c of
           Some msg \<Rightarrow> (Inl msg, t1)
         | None \<Rightarrow> (let (v, t2) = perform c t1 in (Inr v, t2)))"

text \<open>Python's truth value of what \<^verbatim>\<open>page.evaluate\<close> returned.\<close>

fun truthy :: "jsval \<Rightarrow> bool" where
  "truthy JNull = False"
| "truthy (JBool b) = b"

section \<open>Command handlers\<close>

type_synonym 'a handler_result = "(HTTPException + 'a) \<times> web_appState"

definition ok_response :: JsonResponse where
  "ok_response = \<lparr>success = True, focused = None, error = None\<rparr>"

definition soft_failure :: "string \<Rightarrow> JsonResponse" where
  "soft_failure msg = \<lparr>success = False, focused = None, error = Some msg\<rparr>"

definition not_initialized :: HTTPException where
  "not_initialized = HTTPException 500 ''Page not initialized''"

definition hover_coordinate :: "ClickPayload \<Rightarrow> web_appState \<Rightarrow> JsonResponse handler_result" where
  "hover_coordinate payload st =
     (case page st of
        None \<Rightarrow> (Inl not_initialized, st)
      | Some t \<Rightarrow>
          (case engine (MouseMove (x payload * 1280) (y payload * 800)) t of
             (Inl e, t1) \<Rightarrow> (Inl (HTTPException 500 e), st\<lparr>page := Some t1\<rparr>)
           | (Inr _, t1) \<Rightarrow> (Inr ok_response, st\<lparr>page := Some t1\<rparr>)))"

definition click_coordinate :: "ClickPayload \<Rightarrow> web_appState \<Rightarrow> JsonResponse handler_result" where
  "click_coordinate payload st =
     (case page st of
        None \<Rightarrow> (Inl not_initialized, st)
      | Some t \<Rightarrow>
          (case engine (MouseClick (x payload * 1280) (y payload * 800)) t of
             (Inl e, t1) \<Rightarrow> (Inl (HTTPException 500 e), st\<lparr>page := Some t1\<rparr>)
           | (Inr _, t1) \<Rightarrow>
               (case engine (Evaluate (FocusElementAt (x payload * 1280) (y payload * 800))) t1 of
                  (Inl e, t2) \<Rightarrow> (Inl (HTTPException 500 e), st\<lparr>page := Some t2\<rparr>)
                | (Inr element, t2) \<Rightarrow>
                    (Inr \<lparr>success = True, focused = Some element, error = None\<rparr>,
                     st\<lparr>page := Some t2\<rparr>))))"

definition type_keys :: "KeyboardPayload \<Rightarrow> web_appState \<Rightarrow> JsonResponse handler_result" where
  "type_keys payload st =
     (case page st of
        None \<Rightarrow> (Inl not_initialized, st)
      | Some t \<Rightarrow>
          (case engine (Evaluate HasFocusedInput) t of
             (Inl e, t1) \<Rightarrow> (Inl (HTTPException 500 e), st\<lparr>page := Some t1\<rparr>)
           | (Inr has_focused, t1) \<Rightarrow>
               if \<not> truthy has_focused
               then (Inr (soft_failure ''No input element is focused''), st\<lparr>page := Some t1\<rparr>)
               else
                 (case engine (KeyboardPress (key payload)) t1 of
                    (Inl e, t2) \<Rightarrow> (Inl (HTTPException 500 e), st\<lparr>page := Some t2\<rparr>)
                  | (Inr _, t2) \<Rightarrow> (Inr ok_response, st\<lparr>page := Some t2\<rparr>))))"

definition goto_url :: "GotoPayload \<Rightarrow> web_appState \<Rightarrow> JsonResponse handler_result" where
  "goto_url payload st =
     (case page st of
        None \<Rightarrow> (Inl not_initialized, st)
      | Some t \<Rightarrow>
          (case engine (PageGoto (url payload) NetworkIdle) t of
             (Inl e, t1) \<Rightarrow> (Inl (HTTPException 500 e), st\<lparr>page := Some t1\<rparr>)
           | (Inr _, t1) \<Rightarrow> (Inr ok_response, st\<lparr>page := Some t1\<rparr>)))"

definition go_back :: "web_appState \<Rightarrow> JsonResponse handler_result" where
  "go_back st =
     (case page st of
        None \<Rightarrow> (Inl not_initialized, st)
      | Some t \<Rightarrow>
          (case engine (Evaluate HistoryLengthGt1) t of
             (Inl e, t1) \<Rightarrow> (Inl (HTTPException 500 e), st\<lparr>page := Some t1\<rparr>)
           | (Inr can_go_back, t1) \<Rightarrow>
               if \<not> truthy can_go_back
               then (Inr (soft_failure ''No previous page in history''), st\<lparr>page := Some t1\<rparr>)
               else
                 (case engine (PageGoBack NetworkIdle) t1 of
                    (Inl e, t2) \<Rightarrow> (Inl (HTTPException 500 e), st\<lparr>page := Some t2\<rparr>)
                  | (Inr _, t2) \<Rightarrow> (Inr ok_response, st\<lparr>page := Some t2\<rparr>))))"

definition go_forward :: "web_appState \<Rightarrow> JsonResponse handler_result" where
  "go_forward st =
     (case page st of
        None \<Rightarrow> (Inl not_initialized, st)
      | Some t \<Rightarrow>
          (case engine (Evaluate CanGoForward) t of
             (Inl e, t1) \<Rightarrow> (Inl (HTTPException 500 e), st\<lparr>page := Some t1\<rparr>)
           | (Inr can_go_forward, t1) \<Rightarrow>
               if \<not> truthy can_go_forward
               then (Inr (soft_failure ''No next page in history''), st\<lparr>page := Some t1\<rparr>)
               else
                 (case engine (PageGoForward NetworkIdle) t1 of
                    (Inl e, t2) \<Rightarrow> (Inl (HTTPException 500 e), st\<lparr>page := Some t2\<rparr>)
                  | (Inr _, t2) \<Rightarrow> (Inr ok_response, st\<lparr>page := Some t2\<rparr>))))"

text \<open>What a handler added to the log of engine calls.\<close>

definition issued :: "web_appState \<Rightarrow> web_appState \<Rightarrow> engine_call list" where
  "issued st st' =
     (case (page st, page st') of
        (Some t, Some t') \<Rightarrow> drop (length (calls t)) (calls t')
      | _ \<Rightarrow> [])"

fun is_key_press :: "engine_call \<Rightarrow> bool" where
  "is_key_press (KeyboardPress k) = True"
| "is_key_press _ = False"

fun is_navigation :: "engine_call \<Rightarrow> bool" where
  "is_navigation (PageGoto u w) = True"
| "is_navigation (PageGoBack w) = True"
| "is_navigation (PageGoForward w) = True"
| "is_navigation _ = False"

text \<open>The navigation state of a page: its session history and the position in it.\<close>

definition navigation_state :: "tab \<Rightarrow> entry list \<times> entry \<times> entry list" where
  "navigation_state t = (back_entries t, current_entry t, forward_entries t)"

text \<open>Whether the element that has the focus passes the test of \<^verbatim>\<open>type_keys\<close>.\<close>

definition focused_input_like :: "tab \<Rightarrow> bool" where
  "focused_input_like t = (case activeElement t of None \<Rightarrow> False | Some e \<Rightarrow> input_like e)"

section \<open>Screenshot streaming\<close>

text \<open>
  \<^verbatim>\<open>screenshot_loop\<close> is a coroutine of a cooperative event loop: it runs alone between
  two awaits, and while it waits in \<^verbatim>\<open>page.screenshot\<close>, \<^verbatim>\<open>send_bytes\<close> or
  \<^verbatim>\<open>asyncio.sleep\<close> other coroutines may add connections to
  \<^verbatim>\<open>state.active_connections\<close> or remove them. An \<open>iteration\<close> says what the
  surroundings do during one pass of the loop: what happens to the registry during each of
  the three awaits, and how the capture and the send end. The loop is run against a list of
  iterations; when the list is used up the coroutine is still suspended in the next
  capture, and the result is \<open>None\<close>. The exceptions are Python's, all subclasses of
  \<^verbatim>\<open>Exception\<close>; cancellation of the task is not part of the model.
\<close>

type_synonym bytes = "nat list"

datatype exn =
    WebSocketDisconnect
  | RuntimeError string
  | KeyError
  | Error string

datatype 'a outcome = Returns 'a | Raises exn

datatype registry_action = Add websocket | Remove websocket

record iteration =
  during_capture :: "registry_action list"
  capture :: "bytes outcome"
  during_send :: "registry_action list"
  send :: "unit outcome"
  during_sleep :: "registry_action list"

datatype event =
    Interference registry_action
  | Captured bytes
  | Sent websocket bytes
  | Slept real
  | Logged string exn
  | Unregistered websocket

type_synonym 'a coroutine_result = "(exn + 'a) option \<times> web_appState \<times> event list"

fun act :: "registry_action \<Rightarrow> websocket set \<Rightarrow> websocket set" where
  "act (Add c) registry = insert c registry"
| "act (Remove c) registry = registry - {c}"

definition interfere :: "registry_action list \<Rightarrow> web_appState \<Rightarrow> web_appState" where
  "interfere actions st =
     st\<lparr>active_connections := foldl (\<lambda>registry a. act a registry) (active_connections st) actions\<rparr>"

text \<open>Python's \<^verbatim>\<open>set.remove\<close> raises \<^verbatim>\<open>KeyError\<close> for a missing element.\<close>

definition set_remove :: "websocket \<Rightarrow> websocket set \<Rightarrow> exn + websocket set" where
  "set_remove ws registry = (if ws \<in> registry then Inr (registry - {ws}) else Inl KeyError)"

text \<open>
  \<^verbatim>\<open>if websocket in state.active_connections: state.active_connections.remove(websocket)\<close>,
  with the events so far.
\<close>

definition remove_if_present :: "websocket \<Rightarrow> web_appState \<Rightarrow> event list \<Rightarrow> unit coroutine_result" where
  "remove_if_present ws st events =
     (if ws \<in> active_connections st
      then (case set_remove ws (active_connections st) of
              Inl e \<Rightarrow> (Some (Inl e), st, events)
            | Inr registry \<Rightarrow>
                (Some (Inr ()), st\<lparr>active_connections := registry\<rparr>, events @ [Unregistered ws]))
      else (Some (Inr ()), st, events))"

definition sleep_seconds :: real where
  "sleep_seconds = 0.03"

definition prepend :: "event list \<Rightarrow> 'a coroutine_result \<Rightarrow> 'a coroutine_result" where
  "prepend events r = (case r of (res, st, later) \<Rightarrow> (res, st, events @ later))"

text \<open>The \<^verbatim>\<open>try\<close> block of \<^verbatim>\<open>screenshot_loop\<close> with its \<^verbatim>\<open>except Exception\<close>.\<close>

fun loop_body :: "websocket \<Rightarrow> iteration list \<Rightarrow> web_appState \<Rightarrow> unit coroutine_result" where
  "loop_body ws [] st =
     (if ws \<notin> active_connections st then (Some (Inr ()), st, []) else (None, st, []))"
| "loop_body ws (it # rest) st =
     (if ws \<notin> active_connections st then (Some (Inr ()), st, [])
      else
        (let st1 = interfere (during_capture it) st;
             ev1 = map Interference (during_capture it)
         in (case capture it of
               Raises e \<Rightarrow> remove_if_present ws st1 (ev1 @ [Logged ''Screenshot error: '' e])
             | Returns screenshot \<Rightarrow>
                 (let st2 = interfere (during_send it) st1;
                      ev2 = ev1 @ [Captured screenshot] @ map Interference (during_send it)
                  in (case send it of
                        Raises e \<Rightarrow>
                          remove_if_present ws st2 (ev2 @ [Logged ''Screenshot error: '' e])
                      | Returns _ \<Rightarrow>
                          (let st3 = interfere (during_sleep it) st2;
                               ev3 = ev2 @ [Sent ws screenshot]
                                     @ map Interference (during_sleep it) @ [Slept sleep_seconds]
                           in prepend ev3 (loop_body ws rest st3)))))))"

definition screenshot_loop :: "websocket \<Rightarrow> iteration list \<Rightarrow> web_appState \<Rightarrow> unit coroutine_result" where
  "screenshot_loop websocket schedule st =
     (case page st of
        None \<Rightarrow> (Some (Inl (RuntimeError ''Page not initialized'')), st, [])
      | Some _ \<Rightarrow> loop_body websocket schedule st)"

definition websocket_screenshot ::
  "websocket \<Rightarrow> unit outcome \<Rightarrow> iteration list \<Rightarrow> web_appState \<Rightarrow> unit coroutine_result" where
  "websocket_screenshot websocket accept schedule st =
     (case accept of
        Raises e \<Rightarrow> (Some (Inl e), st, [])
      | Returns _ \<Rightarrow>
          (let st1 = st\<lparr>active_connections := insert websocket (active_connections st)\<rparr>
           in (case screenshot_loop websocket schedule st1 of
                 (None, st2, events) \<Rightarrow> (None, st2, events)
               | (Some (Inr _), st2, events) \<Rightarrow> (Some (Inr ()), st2, events)
               | (Some (Inl WebSocketDisconnect), st2, events) \<Rightarrow>
                   (case set_remove websocket (active_connections st2) of
                      Inl e \<Rightarrow> (Some (Inl e), st2, events)
                    | Inr registry \<Rightarrow>
                        (Some (Inr ()), st2\<lparr>active_connections := registry\<rparr>,
                         events @ [Unregistered websocket]))
               | (Some (Inl e), st2, events) \<Rightarrow>
                   remove_if_present websocket st2 (events @ [Logged ''WebSocket error: '' e]))))"

fun is_sent :: "event \<Rightarrow> bool" where
  "is_sent (Sent ws screenshot) = True"
| "is_sent _ = False"

fun sleeps :: "event list \<Rightarrow> real list" where
  "sleeps [] = []"
| "sleeps (Slept d # events) = d # sleeps events"
| "sleeps (_ # events) = sleeps events"

subsection \<open>Reading a run of the loop\<close>

text \<open>
  The registry actions among the events, the registry after a list of actions, an
  iteration in which nothing raises and nobody removes the connection, the exception an
  iteration ends with, and the events of an iteration up to that exception.
\<close>

fun actions_of :: "event list \<Rightarrow> registry_action list" where
  "actions_of [] = []"
| "actions_of (Interference a # events) = a # actions_of events"
| "actions_of (_ # events) = actions_of events"

definition registry_after :: "registry_action list \<Rightarrow> websocket set \<Rightarrow> websocket set" where
  "registry_after actions registry = foldl (\<lambda>r a. act a r) registry actions"

definition undisturbed :: "websocket \<Rightarrow> iteration \<Rightarrow> bool" where
  "undisturbed ws it \<longleftrightarrow>
     (case capture it of Returns _ \<Rightarrow> True | Raises _ \<Rightarrow> False)
     \<and> (case send it of Returns _ \<Rightarrow> True | Raises _ \<Rightarrow> False)
     \<and> Remove ws \<notin> set (during_capture it @ during_send it @ during_sleep it)"

definition failure :: "iteration \<Rightarrow> exn option" where
  "failure it =
     (case capture it of
        Raises e \<Rightarrow> Some e
      | Returns _ \<Rightarrow> (case send it of Raises e \<Rightarrow> Some e | Returns _ \<Rightarrow> None))"

definition events_until_failure :: "iteration \<Rightarrow> event list" where
  "events_until_failure it =
     (case capture it of
        Raises _ \<Rightarrow> map Interference (during_capture it)
      | Returns screenshot \<Rightarrow>
          map Interference (during_capture it) @ [Captured screenshot]
          @ map Interference (during_send it))"

definition registry_at_failure :: "iteration \<Rightarrow> websocket set \<Rightarrow> websocket set" where
  "registry_at_failure it registry = registry_after (actions_of (events_until_failure it)) registry"

section \<open>Session start and teardown\<close>













section \<open>Example sessions\<close>

definition about_blank :: tab where
  "about_blank =
     \<lparr>back_entries = [], current_entry = \<lparr>entry_url = ''about:blank'', entry_state = None\<rparr>,
      forward_entries = [], queued = [], activeElement = None, hit = (\<lambda>a b. None),
      pointer = (0, 0), calls = [], faults = (\<lambda>c. None)\<rparr>"

definition text_field :: element where
  "text_field = \<lparr>tagName = ''INPUT'', contentEditable = ''inherit'', focusable = True\<rparr>"

definition body :: element where
  "body = \<lparr>tagName = ''BODY'', contentEditable = ''inherit'', focusable = False\<rparr>"

definition example_page :: entry where
  "example_page = \<lparr>entry_url = ''https://example.com/'', entry_state = None\<rparr>"

definition form_page :: tab where
  "form_page = about_blank\<lparr>current_entry := example_page, activeElement := Some body,
                 hit := (\<lambda>a b. Some text_field)\<rparr>"

definition typing_page :: tab where
  "typing_page = form_page\<lparr>activeElement := Some text_field\<rparr>"

definition visited_page :: tab where
  "visited_page = form_page\<lparr>back_entries := [current_entry about_blank]\<rparr>"

definition revisited_blank :: tab where
  "revisited_blank = about_blank\<lparr>forward_entries := [example_page]\<rparr>"

definition quiet :: iteration where
  "quiet = \<lparr>during_capture = [], capture = Returns [255, 216], during_send = [], send = Returns (),
     during_sleep = []\<rparr>"




definition session :: "tab \<Rightarrow> web_appState" where
  "session t =
     \<lparr>playwright = Some 1, browser = Some 2, browser_context = Some 3, page = Some t,
      active_connections = {}\<rparr>"

definition viewers :: web_appState where
  "viewers = (session form_page)\<lparr>active_connections := {7, 8}\<rparr>"

section \<open>Facts about the engine\<close>

lemma engine_fault: "faults t c = Some msg \<Longrightarrow> engine c t = (Inl msg, t\<lparr>calls := calls t @ [c]\<rparr>)"
  by (simp add: engine_def)

lemma engine_ok:
  "faults t c = None \<Longrightarrow>
   engine c t = (Inr (fst (perform c (t\<lparr>calls := calls t @ [c]\<rparr>))),
                 snd (perform c (t\<lparr>calls := calls t @ [c]\<rparr>)))"
  by (simp add: engine_def Let_def split: prod.splits)

lemma traverse_calls [simp]: "calls (traverse d t) = calls t"
  by (cases d) (simp_all split: list.splits)

lemma traverse_faults [simp]: "faults (traverse d t) = faults t"
  by (cases d) (simp_all split: list.splits)

lemma foldl_traverse_calls [simp]: "calls (foldl (\<lambda>u d. traverse d u) t ds) = calls t"
  by (induction ds arbitrary: t) simp_all

lemma foldl_traverse_faults [simp]: "faults (foldl (\<lambda>u d. traverse d u) t ds) = faults t"
  by (induction ds arbitrary: t) simp_all

lemma settle_calls [simp]: "calls (settle t) = calls t"
  by (simp add: settle_def)

lemma settle_faults [simp]: "faults (settle t) = faults t"
  by (simp add: settle_def)

lemma run_script_calls [simp]: "calls (snd (run_script s t)) = calls t"
  by (cases s) (simp_all add: focus_def history_forward_def Let_def split: option.splits)

lemma run_script_faults [simp]: "faults (snd (run_script s t)) = faults t"
  by (cases s) (simp_all add: focus_def history_forward_def Let_def split: option.splits)

lemma perform_calls [simp]: "calls (snd (perform c t)) = calls t"
proof (cases c)
  case (Evaluate s)
  then show ?thesis
    using run_script_calls [of s t] by (simp add: split_beta)
qed (simp_all add: navigate_def del: traverse.simps)

lemma perform_faults [simp]: "faults (snd (perform c t)) = faults t"
proof (cases c)
  case (Evaluate s)
  then show ?thesis
    using run_script_faults [of s t] by (simp add: split_beta)
qed (simp_all add: navigate_def del: traverse.simps)

lemma engine_calls [simp]: "calls (snd (engine c t)) = calls t @ [c]"
  by (cases "faults t c") (simp_all add: engine_fault engine_ok)

lemma engine_faults [simp]: "faults (snd (engine c t)) = faults t"
  by (cases "faults t c") (simp_all add: engine_fault engine_ok)

lemma engine_result:
  obtains (raised) msg t1 where "faults t c = Some msg" "engine c t = (Inl msg, t1)"
      "calls t1 = calls t @ [c]" "faults t1 = faults t"
  | (returned) v t1 where "faults t c = None" "engine c t = (Inr v, t1)"
      "calls t1 = calls t @ [c]" "faults t1 = faults t"
      "(v, t1) = perform c (t\<lparr>calls := calls t @ [c]\<rparr>)"
proof (cases "faults t c")
  case None
  show ?thesis
  proof (rule returned [OF None])
    show "engine c t = (Inr (fst (perform c (t\<lparr>calls := calls t @ [c]\<rparr>))),
                        snd (perform c (t\<lparr>calls := calls t @ [c]\<rparr>)))"
      using None by (rule engine_ok)
  qed simp_all
next
  case (Some msg)
  show ?thesis
    by (rule raised [OF Some, of "t\<lparr>calls := calls t @ [c]\<rparr>"])
       (simp_all add: engine_fault Some)
qed

lemma elementFromPoint_frame [simp]:
  "elementFromPoint (t\<lparr>calls := cs\<rparr>) a b = elementFromPoint t a b"
  "elementFromPoint (t\<lparr>pointer := q\<rparr>) a b = elementFromPoint t a b"
  by (simp_all add: elementFromPoint_def)

section \<open>Pointer commands\<close>

lemma hover_issued:
  "page st = Some t \<Longrightarrow>
   issued st (snd (hover_coordinate p st)) = [MouseMove (x p * 1280) (y p * 800)]"
  by (rule engine_result [of t "MouseMove (x p * 1280) (y p * 800)"])
     (simp_all add: hover_coordinate_def issued_def)

lemma hover_result:
  "page st = Some t \<Longrightarrow>
   fst (hover_coordinate p st) =
     (case faults t (MouseMove (x p * 1280) (y p * 800)) of
        None \<Rightarrow> Inr ok_response
      | Some msg \<Rightarrow> Inl (HTTPException 500 msg))"
  by (rule engine_result [of t "MouseMove (x p * 1280) (y p * 800)"])
     (simp_all add: hover_coordinate_def)

lemma click_issued:
  assumes "page st = Some t"
  shows "issued st (snd (click_coordinate p st)) =
     MouseClick (x p * 1280) (y p * 800) #
     (if faults t (MouseClick (x p * 1280) (y p * 800)) = None
      then [Evaluate (FocusElementAt (x p * 1280) (y p * 800))] else [])"
proof (rule engine_result [of t "MouseClick (x p * 1280) (y p * 800)"], goal_cases raised returned)
  case (raised msg t1)
  then show ?case using assms by (simp add: click_coordinate_def issued_def)
next
  case (returned v t1)
  show ?case
    by (rule engine_result [of t1 "Evaluate (FocusElementAt (x p * 1280) (y p * 800))"])
       (use assms returned in \<open>simp_all add: click_coordinate_def issued_def\<close>)
qed

lemma click_result:
  assumes "page st = Some t"
  shows "fst (click_coordinate p st) =
     (case faults t (MouseClick (x p * 1280) (y p * 800)) of
        Some msg \<Rightarrow> Inl (HTTPException 500 msg)
      | None \<Rightarrow>
         (case faults t (Evaluate (FocusElementAt (x p * 1280) (y p * 800))) of
            Some msg \<Rightarrow> Inl (HTTPException 500 msg)
          | None \<Rightarrow> Inr \<lparr>success = True,
               focused = Some (JBool (elementFromPoint t (x p * 1280) (y p * 800) \<noteq> None)),
               error = None\<rparr>))"
proof (cases "faults t (MouseClick (x p * 1280) (y p * 800))")
  case (Some msg)
  then show ?thesis using assms by (simp add: click_coordinate_def engine_fault)
next
  case None
  note click = this
  show ?thesis
  proof (cases "faults t (Evaluate (FocusElementAt (x p * 1280) (y p * 800)))")
    case (Some msg)
    then show ?thesis using assms click
      by (simp add: click_coordinate_def engine_fault engine_ok)
  next
    case None
    then show ?thesis using assms click
      by (simp add: click_coordinate_def engine_ok split: option.splits)
  qed
qed

text \<open>
  Claim C2. For normalized coordinates in the unit square, the pixel that \<^verbatim>\<open>hover\<close> and
  \<^verbatim>\<open>click\<close> pass to the page is (x times the viewport width, y times the viewport
  height), with the width 1280 and the height 800 of the configured viewport, and it lies in
  the viewport. \<^verbatim>\<open>click\<close> passes the same pixel to the pointer click and to the
  script that focuses the element there (the script is not reached when the click raises).
\<close>

theorem pixel_target_of_normalized_coordinates:
  assumes "page st = Some t"
      and "0 \<le> x p" and "x p \<le> 1" and "0 \<le> y p" and "y p \<le> 1"
  shows "issued st (snd (hover_coordinate p st)) =
           [MouseMove (x p * viewport_width) (y p * viewport_height)]
       \<and> issued st (snd (click_coordinate p st)) =
           MouseClick (x p * viewport_width) (y p * viewport_height) #
           (if faults t (MouseClick (x p * viewport_width) (y p * viewport_height)) = None
            then [Evaluate (FocusElementAt (x p * viewport_width) (y p * viewport_height))]
            else [])
       \<and> 0 \<le> x p * viewport_width \<and> x p * viewport_width \<le> viewport_width
       \<and> 0 \<le> y p * viewport_height \<and> y p * viewport_height \<le> viewport_height"
proof -
  have w: "viewport_width = 1280" and h: "viewport_height = 800"
    by (simp_all add: viewport_width_def viewport_height_def)
  have "issued st (snd (hover_coordinate p st)) = [MouseMove (x p * 1280) (y p * 800)]"
    using assms(1) by (rule hover_issued)
  moreover have "issued st (snd (click_coordinate p st)) =
     MouseClick (x p * 1280) (y p * 800) #
     (if faults t (MouseClick (x p * 1280) (y p * 800)) = None
      then [Evaluate (FocusElementAt (x p * 1280) (y p * 800))] else [])"
    using assms(1) by (rule click_issued)
  moreover have "0 \<le> x p * 1280 \<and> x p * 1280 \<le> 1280 \<and> 0 \<le> y p * 800 \<and> y p * 800 \<le> 800"
    using assms(2-5) by simp
  ultimately show ?thesis
    unfolding w h by simp
qed

text \<open>At (0.5, 0.5) both commands act at pixel (640, 400).\<close>

theorem pixel_target_click_center:
  "page (session form_page) = Some form_page
   \<and> (0::real) \<le> 1 / 2 \<and> (1::real) / 2 \<le> 1
   \<and> issued (session form_page) (snd (hover_coordinate \<lparr>x = 1 / 2, y = 1 / 2\<rparr> (session form_page)))
       = [MouseMove 640 400]
   \<and> issued (session form_page) (snd (click_coordinate \<lparr>x = 1 / 2, y = 1 / 2\<rparr> (session form_page)))
       = [MouseClick 640 400, Evaluate (FocusElementAt 640 400)]"
proof -
  have p: "page (session form_page) = Some form_page"
    by (simp add: session_def)
  have f: "faults form_page c = None" for c
    by (simp add: form_page_def about_blank_def)
  show ?thesis
    using pixel_target_of_normalized_coordinates [OF p, of "\<lparr>x = 1 / 2, y = 1 / 2\<rparr>"]
    by (simp add: p f viewport_width_def viewport_height_def)
qed

text \<open>
  Claim C10. For every pair of coordinates, inside the unit square or not, \<^verbatim>\<open>hover\<close>
  and \<^verbatim>\<open>click\<close> pass (x times 1280, y times 800) to the page unchanged: no range
  check, no clamping. The only error response is the one that reports an error raised by
  the engine. The pixel lies within the viewport's bounds exactly when the coordinate lies
  in the unit interval.
\<close>

theorem pointer_commands_do_not_validate_range:
  assumes "page st = Some t"
  shows "issued st (snd (hover_coordinate p st)) = [MouseMove (x p * 1280) (y p * 800)]
       \<and> fst (hover_coordinate p st) =
           (case faults t (MouseMove (x p * 1280) (y p * 800)) of
              None \<Rightarrow> Inr ok_response
            | Some msg \<Rightarrow> Inl (HTTPException 500 msg))
       \<and> issued st (snd (click_coordinate p st)) =
           MouseClick (x p * 1280) (y p * 800) #
           (if faults t (MouseClick (x p * 1280) (y p * 800)) = None
            then [Evaluate (FocusElementAt (x p * 1280) (y p * 800))] else [])
       \<and> fst (click_coordinate p st) =
           (case faults t (MouseClick (x p * 1280) (y p * 800)) of
              Some msg \<Rightarrow> Inl (HTTPException 500 msg)
            | None \<Rightarrow>
               (case faults t (Evaluate (FocusElementAt (x p * 1280) (y p * 800))) of
                  Some msg \<Rightarrow> Inl (HTTPException 500 msg)
                | None \<Rightarrow> Inr \<lparr>success = True,
                     focused = Some (JBool (elementFromPoint t (x p * 1280) (y p * 800) \<noteq> None)),
                     error = None\<rparr>))
       \<and> ((0 \<le> x p * 1280 \<and> x p * 1280 \<le> viewport_width) = (0 \<le> x p \<and> x p \<le> 1))
       \<and> ((0 \<le> y p * 800 \<and> y p * 800 \<le> viewport_height) = (0 \<le> y p \<and> y p \<le> 1))"
  using hover_issued [OF assms, of p] hover_result [OF assms, of p]
    click_issued [OF assms, of p] click_result [OF assms, of p]
  by (simp add: viewport_width_def viewport_height_def)

text \<open>
  At (-1, 2) the commands act at pixel (-1280, 1600), outside the viewport; both succeed,
  and \<^verbatim>\<open>click\<close> finds no element to focus there, on a page that has an element at
  every point of the viewport.
\<close>

theorem pointer_commands_outside_unit_square:
  "page (session form_page) = Some form_page
   \<and> issued (session form_page) (snd (hover_coordinate \<lparr>x = - 1, y = 2\<rparr> (session form_page)))
       = [MouseMove (- 1280) 1600]
   \<and> fst (hover_coordinate \<lparr>x = - 1, y = 2\<rparr> (session form_page)) = Inr ok_response
   \<and> issued (session form_page) (snd (click_coordinate \<lparr>x = - 1, y = 2\<rparr> (session form_page)))
       = [MouseClick (- 1280) 1600, Evaluate (FocusElementAt (- 1280) 1600)]
   \<and> fst (click_coordinate \<lparr>x = - 1, y = 2\<rparr> (session form_page))
       = Inr \<lparr>success = True, focused = Some (JBool False), error = None\<rparr>
   \<and> fst (click_coordinate \<lparr>x = 1 / 2, y = 1 / 2\<rparr> (session form_page))
       = Inr \<lparr>success = True, focused = Some (JBool True), error = None\<rparr>"
proof -
  have p: "page (session form_page) = Some form_page"
    by (simp add: session_def)
  have f: "faults form_page c = None" for c
    by (simp add: form_page_def about_blank_def)
  have h: "hit form_page a b = Some text_field" for a b
    by (simp add: form_page_def)
  show ?thesis
    using pointer_commands_do_not_validate_range [OF p, of "\<lparr>x = - 1, y = 2\<rparr>"]
      pointer_commands_do_not_validate_range [OF p, of "\<lparr>x = 1 / 2, y = 1 / 2\<rparr>"]
    by (simp add: p f h elementFromPoint_def viewport_width_def viewport_height_def)
qed

section \<open>Keyboard command\<close>

lemma evaluate_has_focused_input:
  assumes "faults t (Evaluate HasFocusedInput) = None"
  obtains v t1 where "engine (Evaluate HasFocusedInput) t = (Inr v, t1)"
    "truthy v = focused_input_like t" "calls t1 = calls t @ [Evaluate HasFocusedInput]"
    "faults t1 = faults t"
proof (rule engine_result [of t "Evaluate HasFocusedInput"], goal_cases raised returned)
  case (raised msg t1)
  then show ?case using assms by simp
next
  case (returned v t1)
  from \<open>(v, t1) = perform (Evaluate HasFocusedInput) (t\<lparr>calls := calls t @ [Evaluate HasFocusedInput]\<rparr>)\<close>
  have "truthy v = focused_input_like t"
    by (auto simp: focused_input_like_def split: option.splits)
  with returned show ?case by blast
qed

lemma type_keys_issued:
  assumes "page st = Some t" "faults t (Evaluate HasFocusedInput) = None"
  shows "issued st (snd (type_keys p st)) =
     Evaluate HasFocusedInput # (if focused_input_like t then [KeyboardPress (key p)] else [])"
proof (rule evaluate_has_focused_input [OF assms(2)])
  fix v t1
  assume *: "engine (Evaluate HasFocusedInput) t = (Inr v, t1)"
    "truthy v = focused_input_like t" "calls t1 = calls t @ [Evaluate HasFocusedInput]"
    "faults t1 = faults t"
  show ?thesis
    by (rule engine_result [of t1 "KeyboardPress (key p)"])
       (use assms * in \<open>simp_all add: type_keys_def issued_def\<close>)
qed

lemma type_keys_result:
  assumes "page st = Some t" "faults t (Evaluate HasFocusedInput) = None"
  shows "fst (type_keys p st) =
     (if focused_input_like t
      then (case faults t (KeyboardPress (key p)) of
              None \<Rightarrow> Inr ok_response
            | Some msg \<Rightarrow> Inl (HTTPException 500 msg))
      else Inr (soft_failure ''No input element is focused''))"
proof (rule evaluate_has_focused_input [OF assms(2)])
  fix v t1
  assume *: "engine (Evaluate HasFocusedInput) t = (Inr v, t1)"
    "truthy v = focused_input_like t" "calls t1 = calls t @ [Evaluate HasFocusedInput]"
    "faults t1 = faults t"
  show ?thesis
    by (rule engine_result [of t1 "KeyboardPress (key p)"])
       (use assms * in \<open>simp_all add: type_keys_def\<close>)
qed

text \<open>
  Claim C3. When the test for a focused input element is answered (the engine does not
  raise on it) and the focused element is not input-like, or nothing has the focus,
  \<^verbatim>\<open>type_keys\<close> returns the soft failure \<open>success = False\<close> with the message
  "No input element is focused", raises nothing and issues no key press. When the focused
  element is input-like it issues exactly one key press, of the payload's key.
\<close>

theorem type_keys_needs_focused_input:
  assumes "page st = Some t" and "faults t (Evaluate HasFocusedInput) = None"
  shows "if focused_input_like t
         then filter is_key_press (issued st (snd (type_keys p st))) = [KeyboardPress (key p)]
           \<and> fst (type_keys p st) =
               (case faults t (KeyboardPress (key p)) of
                  None \<Rightarrow> Inr ok_response
                | Some msg \<Rightarrow> Inl (HTTPException 500 msg))
         else filter is_key_press (issued st (snd (type_keys p st))) = []
           \<and> fst (type_keys p st) = Inr (soft_failure ''No input element is focused'')"
  using type_keys_issued [OF assms, of p] type_keys_result [OF assms, of p] by simp

text \<open>
  With the document body focused no key is pressed; with a text input focused the key is
  pressed once.
\<close>

theorem type_keys_with_and_without_focus:
  "page (session form_page) = Some form_page
   \<and> faults form_page (Evaluate HasFocusedInput) = None
   \<and> \<not> focused_input_like form_page
   \<and> filter is_key_press (issued (session form_page) (snd (type_keys \<lparr>key = ''a''\<rparr> (session form_page)))) = []
   \<and> fst (type_keys \<lparr>key = ''a''\<rparr> (session form_page))
       = Inr \<lparr>success = False, focused = None, error = Some ''No input element is focused''\<rparr>
   \<and> page (session typing_page) = Some typing_page
   \<and> faults typing_page (Evaluate HasFocusedInput) = None
   \<and> focused_input_like typing_page
   \<and> filter is_key_press (issued (session typing_page) (snd (type_keys \<lparr>key = ''a''\<rparr> (session typing_page))))
       = [KeyboardPress ''a'']
   \<and> fst (type_keys \<lparr>key = ''a''\<rparr> (session typing_page))
       = Inr \<lparr>success = True, focused = None, error = None\<rparr>"
  using type_keys_needs_focused_input [of "session form_page" form_page "\<lparr>key = ''a''\<rparr>"]
    type_keys_needs_focused_input [of "session typing_page" typing_page "\<lparr>key = ''a''\<rparr>"]
  by (simp add: session_def typing_page_def form_page_def about_blank_def focused_input_like_def
      input_like_def body_def text_field_def soft_failure_def ok_response_def)

section \<open>Going back\<close>

lemma evaluate_history_length:
  assumes "faults t (Evaluate HistoryLengthGt1) = None"
  obtains v t1 where "engine (Evaluate HistoryLengthGt1) t = (Inr v, t1)"
    "truthy v = (history_length t > 1)" "calls t1 = calls t @ [Evaluate HistoryLengthGt1]"
    "faults t1 = faults t"
proof (rule engine_result [of t "Evaluate HistoryLengthGt1"], goal_cases raised returned)
  case (raised msg t1)
  then show ?case using assms by simp
next
  case (returned v t1)
  from \<open>(v, t1) = perform (Evaluate HistoryLengthGt1) (t\<lparr>calls := calls t @ [Evaluate HistoryLengthGt1]\<rparr>)\<close>
  have "truthy v = (history_length t > 1)"
    by (auto simp: history_length_def)
  with returned show ?case by blast
qed

lemma go_back_issued:
  assumes "page st = Some t" "faults t (Evaluate HistoryLengthGt1) = None"
  shows "issued st (snd (go_back st)) =
     Evaluate HistoryLengthGt1 # (if history_length t > 1 then [PageGoBack NetworkIdle] else [])"
proof (rule evaluate_history_length [OF assms(2)])
  fix v t1
  assume *: "engine (Evaluate HistoryLengthGt1) t = (Inr v, t1)"
    "truthy v = (history_length t > 1)" "calls t1 = calls t @ [Evaluate HistoryLengthGt1]"
    "faults t1 = faults t"
  show ?thesis
    by (rule engine_result [of t1 "PageGoBack NetworkIdle"])
       (use assms * in \<open>simp_all add: go_back_def issued_def\<close>)
qed

lemma go_back_result:
  assumes "page st = Some t" "faults t (Evaluate HistoryLengthGt1) = None"
  shows "fst (go_back st) =
     (if history_length t > 1
      then (case faults t (PageGoBack NetworkIdle) of
              None \<Rightarrow> Inr ok_response
            | Some msg \<Rightarrow> Inl (HTTPException 500 msg))
      else Inr (soft_failure ''No previous page in history''))"
proof (rule evaluate_history_length [OF assms(2)])
  fix v t1
  assume *: "engine (Evaluate HistoryLengthGt1) t = (Inr v, t1)"
    "truthy v = (history_length t > 1)" "calls t1 = calls t @ [Evaluate HistoryLengthGt1]"
    "faults t1 = faults t"
  show ?thesis
    by (rule engine_result [of t1 "PageGoBack NetworkIdle"])
       (use assms * in \<open>simp_all add: go_back_def\<close>)
qed

text \<open>
  Claim C4. When the history test is answered and the session history has at most one
  entry, \<^verbatim>\<open>go_back\<close> returns the soft failure with the message "No previous page in
  history" and issues no navigation call. With more than one entry it issues the test and
  then one \<^verbatim>\<open>page.go_back\<close> that waits for network idle.
\<close>

theorem go_back_needs_second_entry:
  assumes "page st = Some t" and "faults t (Evaluate HistoryLengthGt1) = None"
  shows "if history_length t \<le> 1
         then fst (go_back st) = Inr (soft_failure ''No previous page in history'')
           \<and> filter is_navigation (issued st (snd (go_back st))) = []
         else issued st (snd (go_back st)) = [Evaluate HistoryLengthGt1, PageGoBack NetworkIdle]
           \<and> fst (go_back st) =
               (case faults t (PageGoBack NetworkIdle) of
                  None \<Rightarrow> Inr ok_response
                | Some msg \<Rightarrow> Inl (HTTPException 500 msg))"
  using go_back_issued [OF assms] go_back_result [OF assms] by simp

text \<open>A fresh session has one entry; after one visit it has two.\<close>

theorem go_back_on_one_and_two_entries:
  "page (session about_blank) = Some about_blank
   \<and> faults about_blank (Evaluate HistoryLengthGt1) = None
   \<and> history_length about_blank = 1
   \<and> fst (go_back (session about_blank))
       = Inr \<lparr>success = False, focused = None, error = Some ''No previous page in history''\<rparr>
   \<and> filter is_navigation (issued (session about_blank) (snd (go_back (session about_blank)))) = []
   \<and> page (session visited_page) = Some visited_page
   \<and> faults visited_page (Evaluate HistoryLengthGt1) = None
   \<and> history_length visited_page = 2
   \<and> issued (session visited_page) (snd (go_back (session visited_page)))
       = [Evaluate HistoryLengthGt1, PageGoBack NetworkIdle]
   \<and> fst (go_back (session visited_page)) = Inr \<lparr>success = True, focused = None, error = None\<rparr>"
  using go_back_needs_second_entry [of "session about_blank" about_blank]
    go_back_needs_second_entry [of "session visited_page" visited_page]
  by (simp add: session_def visited_page_def form_page_def about_blank_def history_length_def
      soft_failure_def ok_response_def)

section \<open>The check of \<^verbatim>\<open>go_forward\<close>\<close>

text \<open>
  Without a forward entry the traversal that the check queues finds nothing to go to: the
  handler answers the soft failure and the session history is as before.
\<close>

lemma forward_check_without_forward_entry:
  assumes "page st = Some t" and "faults t (Evaluate CanGoForward) = None"
      and "forward_entries t = []" and "queued t = []"
  shows "fst (go_forward st) = Inr (soft_failure ''No next page in history'')
       \<and> map_option navigation_state (page (snd (go_forward st))) = Some (navigation_state t)
       \<and> issued st (snd (go_forward st)) = [Evaluate CanGoForward]"
  using assms
  by (simp add: go_forward_def engine_ok settle_def history_forward_def history_state_def
      navigation_state_def issued_def)

text \<open>
  Claim C1, at a session that went back from a visited page to the blank page, so that a
  forward entry exists. The script that \<^verbatim>\<open>go_forward\<close> evaluates as its check calls
  \<^verbatim>\<open>window.history.forward()\<close>: the page moves to the forward entry although the handler
  answers "No next page in history" and never reaches \<^verbatim>\<open>page.go_forward\<close>.
\<close>

theorem forward_check_moves_the_page:
  "fst (go_forward (session revisited_blank)) = Inr (soft_failure ''No next page in history'')
   \<and> map_option navigation_state (page (session revisited_blank))
       = Some ([], current_entry about_blank, [example_page])
   \<and> map_option navigation_state (page (snd (go_forward (session revisited_blank))))
       = Some ([current_entry about_blank], example_page, [])
   \<and> issued (session revisited_blank) (snd (go_forward (session revisited_blank)))
       = [Evaluate CanGoForward]"
  by (simp add: go_forward_def session_def revisited_blank_def about_blank_def example_page_def
      engine_def settle_def history_forward_def history_state_def navigation_state_def issued_def)

section \<open>Facts about the screenshot loop\<close>

lemma registry_after_simps [simp]:
  "registry_after [] r = r"
  "registry_after (a # as) r = registry_after as (act a r)"
  "registry_after (as @ bs) r = registry_after bs (registry_after as r)"
  by (simp_all add: registry_after_def)

lemma interfere_registry [simp]:
  "active_connections (interfere as st) = registry_after as (active_connections st)"
  by (simp add: interfere_def registry_after_def)

lemma interfere_page [simp]: "page (interfere as st) = page st"
  by (simp add: interfere_def)

lemma actions_of_append [simp]: "actions_of (xs @ ys) = actions_of xs @ actions_of ys"
  by (induction xs rule: actions_of.induct) simp_all

lemma actions_of_map [simp]: "actions_of (map Interference as) = as"
  by (induction as) simp_all

lemma removed_stays_out:
  "Add ws \<notin> set as \<Longrightarrow> ws \<notin> r \<Longrightarrow> ws \<notin> registry_after as r"
proof (induction as arbitrary: r)
  case Nil
  then show ?case by simp
next
  case (Cons a as)
  then show ?case by (cases a) auto
qed

lemma removed_by_interference:
  assumes "as = before @ Remove ws # after" and "Add ws \<notin> set after"
  shows "ws \<notin> registry_after as r"
  using assms by (simp add: removed_stays_out)

lemma kept_by_interference:
  "Remove ws \<notin> set as \<Longrightarrow> ws \<in> r \<Longrightarrow> ws \<in> registry_after as r"
proof (induction as arbitrary: r)
  case Nil
  then show ?case by simp
next
  case (Cons a as)
  then show ?case by (cases a) auto
qed

lemma actions_of_split:
  assumes "events = before @ Interference a # after"
  shows "actions_of events = actions_of before @ a # actions_of after"
  using assms by simp

lemma Add_in_actions: "Add ws \<in> set (actions_of events) \<longleftrightarrow> Interference (Add ws) \<in> set events"
  by (induction events rule: actions_of.induct) auto

lemma loop_body_exit:
  "ws \<notin> active_connections st \<Longrightarrow> loop_body ws schedule st = (Some (Inr ()), st, [])"
  by (cases schedule) simp_all

lemma remove_if_present_eq:
  "remove_if_present ws st events =
     (Some (Inr ()), st\<lparr>active_connections := active_connections st - {ws}\<rparr>,
      events @ (if ws \<in> active_connections st then [Unregistered ws] else []))"
  by (simp add: remove_if_present_def set_remove_def)

lemma split_in_append:
  assumes "xs @ ys = before @ e # after"
  obtains (left) mid where "xs = before @ e # mid" "after = mid @ ys"
  | (right) pre where "before = xs @ pre" "ys = pre @ e # after"
  using assms by (auto simp: append_eq_append_conv2 append_eq_Cons_conv)

lemma sent_after_removal:
  assumes "loop_body ws schedule st = (res, st', tr)"
      and "tr = before @ Interference (Remove ws) # after"
      and "Interference (Add ws) \<notin> set after"
  shows "length (filter is_sent after) \<le> 1 \<and> res = Some (Inr ()) \<and> ws \<notin> active_connections st'"
  using assms
proof (induction schedule arbitrary: st before tr)
  case Nil
  then show ?case by (simp split: if_splits)
next
  case (Cons it rest)
  show ?case
  proof (cases "ws \<in> active_connections st")
    case False
    with Cons.prems show ?thesis by simp
  next
    case True
    show ?thesis
    proof (cases "capture it")
      case (Raises e)
      with True Cons.prems(1)
      have tr: "tr = map Interference (during_capture it) @ [Logged ''Screenshot error: '' e]
                  @ (if ws \<in> active_connections (interfere (during_capture it) st)
                     then [Unregistered ws] else [])"
        and res: "res = Some (Inr ())"
        and st': "st' = (interfere (during_capture it) st)
                    \<lparr>active_connections := active_connections (interfere (during_capture it) st) - {ws}\<rparr>"
        by (auto simp: remove_if_present_eq Let_def)
      have "filter is_sent tr = []"
        unfolding tr by (auto simp: filter_empty_conv)
      then have "filter is_sent after = []"
        using Cons.prems(2) by simp
      then show ?thesis using res st' by simp
    next
      case (Returns shot)
      note shot = this
      show ?thesis
      proof (cases "send it")
        case (Raises e)
        let ?st2 = "interfere (during_send it) (interfere (during_capture it) st)"
        from Raises shot True Cons.prems(1)
        have tr: "tr = map Interference (during_capture it) @ [Captured shot]
                    @ map Interference (during_send it) @ [Logged ''Screenshot error: '' e]
                    @ (if ws \<in> active_connections ?st2 then [Unregistered ws] else [])"
          and res: "res = Some (Inr ())"
          and st': "st' = ?st2\<lparr>active_connections := active_connections ?st2 - {ws}\<rparr>"
          by (auto simp: remove_if_present_eq Let_def)
        have "filter is_sent tr = []"
          unfolding tr by (auto simp: filter_empty_conv)
        then have "filter is_sent after = []"
          using Cons.prems(2) by simp
        then show ?thesis using res st' by simp
      next
        case (Returns u)
        let ?st3 = "interfere (during_sleep it)
                      (interfere (during_send it) (interfere (during_capture it) st))"
        let ?ev3 = "map Interference (during_capture it) @ [Captured shot]
                    @ map Interference (during_send it) @ [Sent ws shot]
                    @ map Interference (during_sleep it) @ [Slept sleep_seconds]"
        obtain tr' where rest: "loop_body ws rest ?st3 = (res, st', tr')" and tr: "tr = ?ev3 @ tr'"
          using Returns shot True Cons.prems(1)
          by (auto simp: Let_def prepend_def split: prod.splits)
        have sent3: "length (filter is_sent ?ev3) = 1"
          by (auto simp: filter_empty_conv)
        from tr Cons.prems(2) have "?ev3 @ tr' = before @ Interference (Remove ws) # after"
          by simp
        then show ?thesis
        proof (cases rule: split_in_append)
          case (left mid)
          have "Interference (Add ws) \<notin> set mid"
            using left(2) Cons.prems(3) by simp
          then have "Add ws \<notin> set (actions_of mid)"
            by (simp add: Add_in_actions)
          moreover have "actions_of ?ev3 = actions_of before @ Remove ws # actions_of mid"
            using left(1) by (metis actions_of_split)
          ultimately have "ws \<notin> registry_after (actions_of ?ev3) (active_connections st)"
            by (rule removed_by_interference [rotated])
          then have out: "ws \<notin> active_connections ?st3"
            by simp
          then have "loop_body ws rest ?st3 = (Some (Inr ()), ?st3, [])"
            by (rule loop_body_exit)
          with rest have r: "res = Some (Inr ())" "st' = ?st3" "tr' = []"
            by simp_all
          have "length (filter is_sent mid) \<le> length (filter is_sent ?ev3)"
            unfolding left(1) by simp
          then show ?thesis
            using r out left(2) sent3 by simp
        next
          case (right pre)
          from Cons.IH [OF rest right(2) Cons.prems(3)] show ?thesis .
        qed
      qed
    qed
  qed
qed

lemma prepend_simps [simp]:
  "prepend events (res, st, later) = (res, st, events @ later)"
  by (simp add: prepend_def)

lemma loop_runs_while_registered:
  assumes "ws \<in> active_connections st" and "list_all (undisturbed ws) schedule"
  shows "fst (loop_body ws schedule st) = None
       \<and> length (filter is_sent (snd (snd (loop_body ws schedule st)))) = length schedule"
  using assms
proof (induction schedule arbitrary: st)
  case Nil
  then show ?case by simp
next
  case (Cons it rest)
  let ?st3 = "interfere (during_sleep it)
                (interfere (during_send it) (interfere (during_capture it) st))"
  from Cons.prems(2) have it: "undisturbed ws it" and rest: "list_all (undisturbed ws) rest"
    by simp_all
  from it obtain shot where shot: "capture it = Returns shot" and sent: "send it = Returns ()"
    and keep: "Remove ws \<notin> set (during_capture it @ during_send it @ during_sleep it)"
    by (auto simp: undisturbed_def split: outcome.splits)
  have "active_connections ?st3 =
          registry_after (during_capture it @ during_send it @ during_sleep it) (active_connections st)"
    by simp
  with keep Cons.prems(1) have "ws \<in> active_connections ?st3"
    by (metis kept_by_interference)
  from Cons.IH [OF this rest] show ?case
    using shot sent Cons.prems(1)
    by (auto simp: Let_def prepend_def split: prod.splits)
qed

lemma loop_body_resume:
  assumes "loop_body ws pre st = (None, st1, tr1)"
  shows "loop_body ws (pre @ later) st = prepend tr1 (loop_body ws later st1)"
  using assms
proof (induction pre arbitrary: st tr1)
  case Nil
  then have "ws \<in> active_connections st" "st1 = st" "tr1 = []"
    by (auto split: if_splits)
  then show ?case by (cases "loop_body ws later st") simp
next
  case (Cons it rest)
  have reg: "ws \<in> active_connections st"
    using Cons.prems by (auto split: if_splits)
  obtain shot where shot: "capture it = Returns shot"
    using Cons.prems reg by (cases "capture it") (auto simp: remove_if_present_eq Let_def)
  have sent: "send it = Returns ()"
    using Cons.prems reg shot by (cases "send it") (auto simp: remove_if_present_eq Let_def)
  let ?st3 = "interfere (during_sleep it)
                (interfere (during_send it) (interfere (during_capture it) st))"
  obtain tr' where rest: "loop_body ws rest ?st3 = (None, st1, tr')"
    and tr1: "tr1 = map Interference (during_capture it) @ [Captured shot]
                @ map Interference (during_send it) @ [Sent ws shot]
                @ map Interference (during_sleep it) @ [Slept sleep_seconds] @ tr'"
    using Cons.prems reg shot sent
    by (auto simp: Let_def prepend_def split: prod.splits)
  from Cons.IH [OF rest] show ?case
    using reg shot sent tr1
    by (cases "loop_body ws later st1") (simp add: Let_def)
qed

lemma loop_body_failure:
  assumes "ws \<in> active_connections st" and "failure it = Some e"
  shows "loop_body ws (it # rest) st =
     (Some (Inr ()),
      st\<lparr>active_connections := registry_after (actions_of (events_until_failure it)) (active_connections st) - {ws}\<rparr>,
      events_until_failure it @ [Logged ''Screenshot error: '' e]
      @ (if ws \<in> registry_after (actions_of (events_until_failure it)) (active_connections st)
         then [Unregistered ws] else []))"
proof (cases "capture it")
  case (Raises e')
  with assms show ?thesis
    by (simp add: failure_def events_until_failure_def remove_if_present_eq interfere_def registry_after_def)
next
  case (Returns shot)
  with assms obtain "send it = Raises e"
    by (cases "send it") (simp_all add: failure_def)
  with Returns assms show ?thesis
    by (simp add: failure_def events_until_failure_def remove_if_present_eq interfere_def registry_after_def)
qed

lemma sleeps_append [simp]: "sleeps (xs @ ys) = sleeps xs @ sleeps ys"
  by (induction xs rule: sleeps.induct) simp_all

lemma sleeps_interference [simp]: "sleeps (map Interference as) = []"
  by (induction as) simp_all

lemma sent_interference [simp]: "filter is_sent (map Interference as) = []"
  by (induction as) simp_all

lemma one_sleep_per_frame:
  "sleeps (snd (snd (loop_body ws schedule st)))
     = replicate (length (filter is_sent (snd (snd (loop_body ws schedule st))))) sleep_seconds"
proof (induction schedule arbitrary: st)
  case Nil
  then show ?case by simp
next
  case (Cons it rest)
  show ?case
  proof (cases "ws \<in> active_connections st")
    case False
    then show ?thesis by simp
  next
    case True
    show ?thesis
    proof (cases "failure it")
      case (Some e)
      have "sleeps (events_until_failure it) = []" "filter is_sent (events_until_failure it) = []"
        by (simp_all add: events_until_failure_def split: outcome.splits)
      then show ?thesis
        using loop_body_failure [OF True Some, of rest] by simp
    next
      case None
      then obtain shot where shot: "capture it = Returns shot" and sent: "send it = Returns ()"
        by (auto simp: failure_def split: outcome.splits)
      let ?st3 = "interfere (during_sleep it)
                    (interfere (during_send it) (interfere (during_capture it) st))"
      show ?thesis
        using Cons.IH [of ?st3] True shot sent
        by (cases "loop_body ws rest ?st3") (simp add: Let_def)
    qed
  qed
qed

lemma act_modulo:
  assumes "r - {ws} = r' - {ws}"
  shows "act a r - {ws} = act a r' - {ws}"
proof -
  from assms have *: "\<And>c. c \<noteq> ws \<Longrightarrow> c \<in> r \<longleftrightarrow> c \<in> r'"
    unfolding set_eq_iff by fastforce
  show ?thesis
    unfolding set_eq_iff using * by (cases a) fastforce+
qed

lemma registry_after_modulo:
  "r - {ws} = r' - {ws} \<Longrightarrow> registry_after as r - {ws} = registry_after as r' - {ws}"
proof (induction as arbitrary: r r')
  case Nil
  then show ?case by simp
next
  case (Cons a as)
  from Cons.prems have "act a r - {ws} = act a r' - {ws}"
    by (rule act_modulo)
  then have "registry_after as (act a r) - {ws} = registry_after as (act a r') - {ws}"
    by (rule Cons.IH)
  then show ?case
    by (simp only: registry_after_simps)
qed

lemma member_modulo:
  assumes "r - {ws} = r' - {ws}" and "c \<noteq> ws"
  shows "c \<in> r \<longleftrightarrow> c \<in> r'"
  using assms unfolding set_eq_iff by fastforce


lemma other_loop_unaffected:
  assumes "c \<noteq> ws" and "active_connections st - {ws} = active_connections st' - {ws}"
  shows "fst (loop_body c schedule st) = fst (loop_body c schedule st')
       \<and> snd (snd (loop_body c schedule st)) = snd (snd (loop_body c schedule st'))"
  using assms(2)
proof (induction schedule arbitrary: st st')
  case Nil
  have "c \<in> active_connections st \<longleftrightarrow> c \<in> active_connections st'"
    using Nil assms(1) by (rule member_modulo)
  then show ?case by simp
next
  case (Cons it rest)
  have reg: "c \<in> active_connections st \<longleftrightarrow> c \<in> active_connections st'"
    using Cons.prems assms(1) by (rule member_modulo)
  show ?case
  proof (cases "c \<in> active_connections st")
    case False
    with reg show ?thesis by simp
  next
    case True
    then have True': "c \<in> active_connections st'"
      using reg by simp
    show ?thesis
    proof (cases "failure it")
      case (Some e)
      have "c \<in> registry_after (actions_of (events_until_failure it)) (active_connections st)
            \<longleftrightarrow> c \<in> registry_after (actions_of (events_until_failure it)) (active_connections st')"
        using member_modulo [OF registry_after_modulo [OF Cons.prems] assms(1)] .
      then show ?thesis
        using loop_body_failure [OF True Some, of rest] loop_body_failure [OF True' Some, of rest]
        by simp
    next
      case None
      then obtain shot where shot: "capture it = Returns shot" and sent: "send it = Returns ()"
        by (auto simp: failure_def split: outcome.splits)
      let ?as = "during_capture it @ during_send it @ during_sleep it"
      let ?st3 = "interfere (during_sleep it)
                    (interfere (during_send it) (interfere (during_capture it) st))"
      let ?st3' = "interfere (during_sleep it)
                    (interfere (during_send it) (interfere (during_capture it) st'))"
      have "registry_after ?as (active_connections st) - {ws}
            = registry_after ?as (active_connections st') - {ws}"
        using Cons.prems by (rule registry_after_modulo)
      moreover have "active_connections ?st3 = registry_after ?as (active_connections st)"
        "active_connections ?st3' = registry_after ?as (active_connections st')"
        by simp_all
      ultimately have "active_connections ?st3 - {ws} = active_connections ?st3' - {ws}"
        by (simp only:)
      from Cons.IH [OF this] show ?thesis
        using True True' shot sent
        by (cases "loop_body c rest ?st3"; cases "loop_body c rest ?st3'") (simp add: Let_def)
    qed
  qed
qed

lemma loop_body_outcome:
  "fst (loop_body ws schedule st) = None \<or> fst (loop_body ws schedule st) = Some (Inr ())"
proof (induction schedule arbitrary: st)
  case Nil
  then show ?case by simp
next
  case (Cons it rest)
  show ?case
  proof (cases "ws \<in> active_connections st")
    case False
    then show ?thesis by simp
  next
    case True
    show ?thesis
    proof (cases "failure it")
      case (Some e)
      then show ?thesis
        using loop_body_failure [OF True Some, of rest] by simp
    next
      case None
      then obtain shot where shot: "capture it = Returns shot" and sent: "send it = Returns ()"
        by (auto simp: failure_def split: outcome.splits)
      let ?st3 = "interfere (during_sleep it)
                    (interfere (during_send it) (interfere (during_capture it) st))"
      show ?thesis
        using Cons.IH [of ?st3] True shot sent
        by (cases "loop_body ws rest ?st3") (simp add: Let_def)
    qed
  qed
qed

lemma screenshot_loop_outcome:
  "fst (screenshot_loop ws schedule st) =
     (case page st of
        None \<Rightarrow> Some (Inl (RuntimeError ''Page not initialized''))
      | Some t \<Rightarrow> fst (loop_body ws schedule st))"
  by (simp add: screenshot_loop_def split: option.splits)

lemma websocket_screenshot_outcome:
  "fst (websocket_screenshot ws (Returns ()) schedule st) = None
   \<or> fst (websocket_screenshot ws (Returns ()) schedule st) = Some (Inr ())"
proof (cases "page st")
  case None
  then show ?thesis
    by (simp add: websocket_screenshot_def screenshot_loop_def remove_if_present_eq)
next
  case (Some t)
  let ?st1 = "st\<lparr>active_connections := insert ws (active_connections st)\<rparr>"
  obtain res st2 events where run: "loop_body ws schedule ?st1 = (res, st2, events)"
    by (cases "loop_body ws schedule ?st1") auto
  with loop_body_outcome [of ws schedule ?st1] have "res = None \<or> res = Some (Inr ())"
    by simp
  then show ?thesis
    using Some run by (auto simp: websocket_screenshot_def screenshot_loop_def)
qed

lemma screenshot_loop_page:
  "page st = Some t \<Longrightarrow> screenshot_loop ws schedule st = loop_body ws schedule st"
  by (simp add: screenshot_loop_def)

lemma loop_body_page: "page (fst (snd (loop_body ws schedule st))) = page st"
proof (induction schedule arbitrary: st)
  case Nil
  then show ?case by simp
next
  case (Cons it rest)
  show ?case
  proof (cases "ws \<in> active_connections st")
    case False
    then show ?thesis by simp
  next
    case True
    show ?thesis
    proof (cases "failure it")
      case (Some e)
      then show ?thesis
        using loop_body_failure [OF True Some, of rest] by simp
    next
      case None
      then obtain shot where shot: "capture it = Returns shot" and sent: "send it = Returns ()"
        by (auto simp: failure_def split: outcome.splits)
      let ?st3 = "interfere (during_sleep it)
                    (interfere (during_send it) (interfere (during_capture it) st))"
      show ?thesis
        using Cons.IH [of ?st3] True shot sent
        by (cases "loop_body ws rest ?st3") (simp add: Let_def)
    qed
  qed
qed


section \<open>The loop and the registry\<close>

text \<open>
  Claim C5. In the events of a run of \<^verbatim>\<open>screenshot_loop\<close>, after another coroutine has
  removed the connection from \<^verbatim>\<open>state.active_connections\<close> (and none adds it again)
  at most one frame is sent, the loop returns, and the connection is out of the registry.
  The test at the head of the loop decides alone: a connection that is not registered
  makes the loop return at once without any event, and as long as nothing raises and
  nobody removes the connection the loop is still running when the schedule ends, with one
  frame sent per iteration.
\<close>

theorem loop_stops_after_unregistration:
  assumes "screenshot_loop ws schedule st = (res, st', tr)"
  shows "(\<forall>before after.
            tr = before @ Interference (Remove ws) # after \<and> Interference (Add ws) \<notin> set after
            \<longrightarrow> length (filter is_sent after) \<le> 1 \<and> res = Some (Inr ())
                \<and> ws \<notin> active_connections st')
       \<and> (page st \<noteq> None \<and> ws \<notin> active_connections st \<longrightarrow> res = Some (Inr ()) \<and> tr = [])
       \<and> (page st \<noteq> None \<and> ws \<in> active_connections st \<and> list_all (undisturbed ws) schedule
            \<longrightarrow> res = None \<and> length (filter is_sent tr) = length schedule)"
proof (cases "page st")
  case None
  with assms have "tr = []"
    by (simp add: screenshot_loop_def)
  with None show ?thesis by simp
next
  case (Some t)
  with assms have run: "loop_body ws schedule st = (res, st', tr)"
    by (simp add: screenshot_loop_page)
  have "length (filter is_sent after) \<le> 1 \<and> res = Some (Inr ()) \<and> ws \<notin> active_connections st'"
    if "tr = before @ Interference (Remove ws) # after" "Interference (Add ws) \<notin> set after"
    for before after
    using run that by (rule sent_after_removal)
  moreover have "res = Some (Inr ()) \<and> tr = []" if "ws \<notin> active_connections st"
    using loop_body_exit [OF that, of schedule] run by simp
  moreover have "res = None \<and> length (filter is_sent tr) = length schedule"
    if "ws \<in> active_connections st" "list_all (undisturbed ws) schedule"
    using loop_runs_while_registered [OF that] run by simp
  ultimately show ?thesis by blast
qed

text \<open>
  Connection 7 is removed while its second frame is captured: that frame is still sent and
  the loop returns. Connection 9 was never registered: its loop returns at once.
  Connection 8 stays registered: its loop has sent two frames after two iterations and is
  still running.
\<close>

theorem loop_stops_after_unregistration_runs:
  "screenshot_loop 7 [quiet, quiet\<lparr>during_capture := [Remove 7]\<rparr>, quiet] viewers
     = (Some (Inr ()), viewers\<lparr>active_connections := {8}\<rparr>,
        [Captured [255, 216], Sent 7 [255, 216], Slept sleep_seconds]
        @ Interference (Remove 7) # [Captured [255, 216], Sent 7 [255, 216], Slept sleep_seconds])
   \<and> Interference (Add 7) \<notin> set [Captured [255, 216], Sent 7 [255, 216], Slept sleep_seconds]
   \<and> length (filter is_sent [Captured [255, 216], Sent 7 [255, 216], Slept sleep_seconds]) \<le> 1
   \<and> 7 \<notin> active_connections (viewers\<lparr>active_connections := {8}\<rparr>)
   \<and> page viewers \<noteq> None \<and> 9 \<notin> active_connections viewers
   \<and> screenshot_loop 9 [quiet, quiet] viewers = (Some (Inr ()), viewers, [])
   \<and> 8 \<in> active_connections viewers \<and> list_all (undisturbed 8) [quiet, quiet]
   \<and> fst (screenshot_loop 8 [quiet, quiet] viewers) = None
   \<and> length (filter is_sent (snd (snd (screenshot_loop 8 [quiet, quiet] viewers)))) = 2"
proof -
  have run7: "screenshot_loop 7 [quiet, quiet\<lparr>during_capture := [Remove 7]\<rparr>, quiet] viewers
     = (Some (Inr ()), viewers\<lparr>active_connections := {8}\<rparr>,
        [Captured [255, 216], Sent 7 [255, 216], Slept sleep_seconds]
        @ Interference (Remove 7) # [Captured [255, 216], Sent 7 [255, 216], Slept sleep_seconds])"
    by (simp add: screenshot_loop_def viewers_def session_def quiet_def interfere_def insert_Diff_if)
  have run9: "screenshot_loop 9 [quiet, quiet] viewers = (Some (Inr ()), viewers, [])"
    by (simp add: screenshot_loop_def viewers_def session_def)
  obtain res st' tr where run8: "screenshot_loop 8 [quiet, quiet] viewers = (res, st', tr)"
    by (cases "screenshot_loop 8 [quiet, quiet] viewers") auto
  have u: "list_all (undisturbed 8) [quiet, quiet]"
    by (simp add: undisturbed_def quiet_def)
  have v: "page viewers \<noteq> None" "9 \<notin> active_connections viewers" "8 \<in> active_connections viewers"
    by (simp_all add: viewers_def session_def)
  show ?thesis
    using loop_stops_after_unregistration [OF run7] loop_stops_after_unregistration [OF run9]
      loop_stops_after_unregistration [OF run8] run7 run9 run8 u v
    by simp
qed

text \<open>
  Claim C6. When the capture or the send of an iteration raises, the loop logs the error,
  removes its own connection from the registry if it is still there, and returns: whatever
  iterations the schedule holds after the failing one are never run, and no frame is sent
  in the failing iteration. The registry loses that connection only, and the loop of any
  other connection behaves on the registry after the failure as it would had the failing
  connection stayed registered.
\<close>

theorem failure_ends_only_that_loop:
  assumes "screenshot_loop ws pre st = (None, st1, tr1)" and "failure it = Some e"
  shows "screenshot_loop ws (pre @ it # post) st =
           (Some (Inr ()),
            st1\<lparr>active_connections :=
                  registry_at_failure it (active_connections st1) - {ws}\<rparr>,
            tr1 @ events_until_failure it @ [Logged ''Screenshot error: '' e]
            @ (if ws \<in> registry_at_failure it (active_connections st1)
               then [Unregistered ws] else []))
       \<and> filter is_sent (events_until_failure it) = []
       \<and> (\<forall>c schedule. c \<noteq> ws \<longrightarrow>
             fst (screenshot_loop c schedule
                   (st1\<lparr>active_connections :=
                         registry_at_failure it (active_connections st1) - {ws}\<rparr>))
             = fst (screenshot_loop c schedule
                   (st1\<lparr>active_connections :=
                         registry_at_failure it (active_connections st1)\<rparr>))
           \<and> snd (snd (screenshot_loop c schedule
                   (st1\<lparr>active_connections :=
                         registry_at_failure it (active_connections st1) - {ws}\<rparr>)))
             = snd (snd (screenshot_loop c schedule
                   (st1\<lparr>active_connections :=
                         registry_at_failure it (active_connections st1)\<rparr>))))"
proof -
  let ?R = "registry_at_failure it (active_connections st1)"
  from assms(1) obtain t where t: "page st = Some t"
    by (cases "page st") (simp_all add: screenshot_loop_def)
  with assms(1) have pre: "loop_body ws pre st = (None, st1, tr1)"
    by (simp add: screenshot_loop_page)
  have t1: "page st1 = Some t"
    using loop_body_page [of ws pre st] pre t by simp
  have reg: "ws \<in> active_connections st1"
  proof (rule ccontr)
    assume "ws \<notin> active_connections st1"
    then have "loop_body ws [] st1 = (Some (Inr ()), st1, [])" by simp
    moreover have "loop_body ws (pre @ []) st = prepend tr1 (loop_body ws [] st1)"
      using pre by (rule loop_body_resume)
    ultimately show False using pre by simp
  qed
  have "loop_body ws (pre @ it # post) st = prepend tr1 (loop_body ws (it # post) st1)"
    using pre by (rule loop_body_resume)
  also have "\<dots> = (Some (Inr ()), st1\<lparr>active_connections := ?R - {ws}\<rparr>,
      tr1 @ events_until_failure it @ [Logged ''Screenshot error: '' e]
      @ (if ws \<in> ?R then [Unregistered ws] else []))"
    using loop_body_failure [OF reg assms(2), of post] by (simp add: registry_at_failure_def)
  finally have first: "screenshot_loop ws (pre @ it # post) st =
      (Some (Inr ()), st1\<lparr>active_connections := ?R - {ws}\<rparr>,
       tr1 @ events_until_failure it @ [Logged ''Screenshot error: '' e]
       @ (if ws \<in> ?R then [Unregistered ws] else []))"
    using t by (simp add: screenshot_loop_page)
  have second: "filter is_sent (events_until_failure it) = []"
    by (simp add: events_until_failure_def split: outcome.splits)
  have third: "fst (screenshot_loop c schedule (st1\<lparr>active_connections := ?R - {ws}\<rparr>))
        = fst (screenshot_loop c schedule (st1\<lparr>active_connections := ?R\<rparr>))
      \<and> snd (snd (screenshot_loop c schedule (st1\<lparr>active_connections := ?R - {ws}\<rparr>)))
        = snd (snd (screenshot_loop c schedule (st1\<lparr>active_connections := ?R\<rparr>)))"
    if "c \<noteq> ws" for c schedule
  proof -
    have "active_connections (st1\<lparr>active_connections := ?R - {ws}\<rparr>) - {ws}
        = active_connections (st1\<lparr>active_connections := ?R\<rparr>) - {ws}"
      by simp
    from other_loop_unaffected [OF that this, of schedule] show ?thesis
      using t1 by (simp add: screenshot_loop_page)
  qed
  from first second third show ?thesis by blast
qed

text \<open>
  The send of the second frame of connection 7 raises \<^verbatim>\<open>WebSocketDisconnect\<close> after
  connection 9 has registered: 7 is removed, 8 and 9 stay, the two later iterations are not
  run, and the loop of connection 8 keeps running.
\<close>

theorem failure_on_send_after_one_frame:
  "screenshot_loop 7 [quiet] viewers
     = (None, viewers, [Captured [255, 216], Sent 7 [255, 216], Slept sleep_seconds])
   \<and> failure (quiet\<lparr>during_send := [Add 9], send := Raises WebSocketDisconnect\<rparr>)
       = Some WebSocketDisconnect
   \<and> screenshot_loop 7
       ([quiet] @ quiet\<lparr>during_send := [Add 9], send := Raises WebSocketDisconnect\<rparr> # [quiet, quiet])
       viewers
     = (Some (Inr ()), viewers\<lparr>active_connections := {8, 9}\<rparr>,
        [Captured [255, 216], Sent 7 [255, 216], Slept sleep_seconds,
         Captured [255, 216], Interference (Add 9),
         Logged ''Screenshot error: '' WebSocketDisconnect, Unregistered 7])
   \<and> fst (screenshot_loop 8 [quiet] (viewers\<lparr>active_connections := {8, 9}\<rparr>)) = None"
proof -
  let ?it = "quiet\<lparr>during_send := [Add 9], send := Raises WebSocketDisconnect\<rparr>"
  have pre: "screenshot_loop 7 [quiet] viewers
     = (None, viewers, [Captured [255, 216], Sent 7 [255, 216], Slept sleep_seconds])"
    by (simp add: screenshot_loop_def viewers_def session_def quiet_def interfere_def)
  have f: "failure ?it = Some WebSocketDisconnect"
    by (simp add: failure_def quiet_def)
  have ev: "events_until_failure ?it = [Captured [255, 216], Interference (Add 9)]"
    by (simp add: events_until_failure_def quiet_def)
  have r: "registry_at_failure ?it (active_connections viewers) = {7, 8, 9}"
    unfolding registry_at_failure_def ev
    by (auto simp: viewers_def)
  have d: "{7, 8, 9} - {7} = {8, 9 :: nat}"
    by auto
  have other: "fst (screenshot_loop 8 [quiet] (viewers\<lparr>active_connections := {8, 9}\<rparr>)) = None"
    by (simp add: screenshot_loop_def viewers_def session_def quiet_def interfere_def)
  show ?thesis
    using failure_ends_only_that_loop [OF pre f, of "[quiet, quiet]"] pre f other
    by (simp add: ev r d)
qed

text \<open>
  The loop waits once after each frame it has sent, always for the same
  \<^verbatim>\<open>asyncio.sleep(0.03)\<close>: 0.03 seconds, that is 30 milliseconds.
\<close>

lemma one_fixed_wait_per_frame:
  "sleeps (snd (snd (screenshot_loop ws schedule st)))
     = replicate (length (filter is_sent (snd (snd (screenshot_loop ws schedule st))))) sleep_seconds
   \<and> sleep_seconds = 3 / 100"
proof (cases "page st")
  case None
  then show ?thesis by (simp add: screenshot_loop_def sleep_seconds_def)
next
  case (Some t)
  then show ?thesis
    using one_sleep_per_frame [of ws schedule st]
    by (simp add: screenshot_loop_page sleep_seconds_def)
qed


text \<open>
  Claim C9. The guarded removal
  \<^verbatim>\<open>if websocket in state.active_connections: state.active_connections.remove(websocket)\<close>
  never raises, leaves the registry without the connection, and done a second time changes
  nothing. It is the removal of the \<^verbatim>\<open>except Exception\<close> handlers of
  \<^verbatim>\<open>screenshot_loop\<close> and of \<^verbatim>\<open>websocket_screenshot\<close>. The third removal, in the
  \<^verbatim>\<open>except WebSocketDisconnect\<close> handler of \<^verbatim>\<open>websocket_screenshot\<close>, is a bare
  \<^verbatim>\<open>remove\<close>, which would raise \<^verbatim>\<open>KeyError\<close> on an absent connection; it is never
  reached, because \<^verbatim>\<open>screenshot_loop\<close> never raises \<^verbatim>\<open>WebSocketDisconnect\<close>: once
  the connection is accepted the endpoint returns or keeps running, and raises nothing.
\<close>

theorem unregistering_twice_is_safe:
  "remove_if_present ws st events =
     (Some (Inr ()), st\<lparr>active_connections := active_connections st - {ws}\<rparr>,
      events @ (if ws \<in> active_connections st then [Unregistered ws] else []))
   \<and> remove_if_present ws (st\<lparr>active_connections := active_connections st - {ws}\<rparr>) events'
     = (Some (Inr ()), st\<lparr>active_connections := active_connections st - {ws}\<rparr>, events')
   \<and> fst (screenshot_loop ws schedule st) \<noteq> Some (Inl WebSocketDisconnect)
   \<and> fst (screenshot_loop ws schedule st) \<noteq> Some (Inl KeyError)
   \<and> (fst (websocket_screenshot ws (Returns ()) schedule st) = None
      \<or> fst (websocket_screenshot ws (Returns ()) schedule st) = Some (Inr ()))"
proof -
  have "fst (screenshot_loop ws schedule st) \<noteq> Some (Inl WebSocketDisconnect)"
    "fst (screenshot_loop ws schedule st) \<noteq> Some (Inl KeyError)"
    using loop_body_outcome [of ws schedule st]
    by (auto simp: screenshot_loop_outcome split: option.splits)
  then show ?thesis
    using websocket_screenshot_outcome [of ws schedule st]
    by (simp add: remove_if_present_eq)
qed

text \<open>
  Removing connection 7 twice from the registry {7, 8}; the bare \<^verbatim>\<open>remove\<close> would
  raise on the second; a disconnect during the send ends in the handler of the loop.
\<close>

theorem unregistering_an_absent_connection:
  "remove_if_present 7 viewers [] = (Some (Inr ()), viewers\<lparr>active_connections := {8}\<rparr>, [Unregistered 7])
   \<and> remove_if_present 7 (viewers\<lparr>active_connections := {8}\<rparr>) []
      = (Some (Inr ()), viewers\<lparr>active_connections := {8}\<rparr>, [])
   \<and> set_remove 7 {8} = Inl KeyError
   \<and> websocket_screenshot 7 (Returns ()) [quiet\<lparr>send := Raises WebSocketDisconnect\<rparr>] viewers
      = (Some (Inr ()), viewers\<lparr>active_connections := {8}\<rparr>,
         [Captured [255, 216], Logged ''Screenshot error: '' WebSocketDisconnect, Unregistered 7])"
proof -
  have d: "active_connections viewers - {7} = {8}" "7 \<in> active_connections viewers"
    by (auto simp: viewers_def)
  have run: "websocket_screenshot 7 (Returns ()) [quiet\<lparr>send := Raises WebSocketDisconnect\<rparr>] viewers
      = (Some (Inr ()), viewers\<lparr>active_connections := {8}\<rparr>,
         [Captured [255, 216], Logged ''Screenshot error: '' WebSocketDisconnect, Unregistered 7])"
    by (simp add: websocket_screenshot_def screenshot_loop_def viewers_def session_def quiet_def
        interfere_def remove_if_present_eq insert_Diff_if)
  show ?thesis
    using unregistering_twice_is_safe [of 7 viewers "[]" "[]"] run
    by (simp add: d set_remove_def)
qed

section \<open>Teardown\<close>










end
